theory Spec2Isabelle
  imports Main "HOL-Library.Sublist"
begin

section \<open>The task model (models/task.model.ts)\<close>

text \<open>
  The enum \<open>TaskStatus\<close> and the interface \<open>Task\<close>. A \<open>Date\<close> is its number of
  milliseconds since the epoch, an \<open>int\<close>. The field \<open>id\<close> is written \<open>id_t\<close>, since
  \<open>id\<close> is the identity function of HOL.
\<close>

datatype TaskStatus = PENDING | IN_PROGRESS | COMPLETED

record Task =
  id_t :: string
  title :: string
  description :: string
  status :: TaskStatus
  createdAt :: int
  updatedAt :: int

text \<open>
  \<open>Partial<Task>\<close>, the type of the second argument of \<open>update\<close>: every field of
  \<open>Task\<close> may be present or absent. \<open>None\<close> is an absent key.
\<close>

record PartialTask =
  id_p :: "string option"
  title_p :: "string option"
  description_p :: "string option"
  status_p :: "TaskStatus option"
  createdAt_p :: "int option"
  updatedAt_p :: "int option"

text \<open>The argument of \<open>create\<close>: \<open>{ title: string; description: string }\<close>.\<close>

record CreateData =
  title_d :: string
  description_d :: string

text \<open>The object returned by \<open>getAll\<close>: \<open>{ total, page, limit, data }\<close>.\<close>

record TaskPage =
  total :: nat
  page :: int
  limit :: int
  data :: "Task list"

section \<open>The JavaScript built-ins the store calls\<close>

text \<open>
  A JavaScript string is a \<open>string\<close>, the sequence of its characters in a fixed
  encoding. \<open>String.prototype.toLowerCase\<close> is not defined here: it is the engine's
  function from a string to its lower-cased string, which folds every cased letter of
  Unicode, depends on the neighbouring characters and can change the length. The store
  functions that call it take it as their first argument, written \<open>toLowerCase\<close>, and
  every theorem below holds for every such function.
\<close>

text \<open>\<open>s.includes(t)\<close>: \<open>t\<close> occurs in \<open>s\<close> as a contiguous run of characters.\<close>

fun includes_str :: "string \<Rightarrow> string \<Rightarrow> bool" where
  "includes_str [] t = (t = [])"
| "includes_str (c # s) t = (prefix t (c # s) \<or> includes_str s t)"

text \<open>
  \<open>Array.prototype.slice(start, end)\<close> on integer arguments: a negative index counts
  from the end of the array, both indices are clamped to \<open>[0, len]\<close>, and the result
  has \<open>max (final - k) 0\<close> elements starting at \<open>k\<close>.
\<close>

definition slice :: "'a list \<Rightarrow> int \<Rightarrow> int \<Rightarrow> 'a list" where
  "slice xs start end =
     (let len = int (length xs);
          k = (if start < 0 then max (len + start) 0 else min start len);
          final = (if end < 0 then max (len + end) 0 else min end len)
      in take (nat (final - k)) (drop (nat k) xs))"

text \<open>
  \<open>Array.prototype.findIndex\<close>: the index of the first element that satisfies the
  predicate, \<open>-1\<close> when there is none.
\<close>

definition findIndex :: "('a \<Rightarrow> bool) \<Rightarrow> 'a list \<Rightarrow> int" where
  "findIndex P xs =
     (if list_ex P xs then int (length (takeWhile (\<lambda>x. \<not> P x) xs)) else - 1)"

section \<open>The task store (services/task.service.ts)\<close>

text \<open>
  The module variable \<open>tasks\<close> is passed explicitly: a function that assigns to it
  returns the new array together with its result. What the environment supplies is an
  argument: the string returned by \<open>uuidv4()\<close> and the instant read by each
  \<open>new Date()\<close>. The numbers \<open>page\<close> and \<open>limit\<close> are integers, which is what
  \<open>parseInt\<close> yields on a numeric query value; \<open>NaN\<close>, fractions and magnitudes
  that a double does not hold exactly are not modelled.
\<close>

text \<open>Lines 21 to 31 of \<open>getAll\<close>: the two guarded filters.\<close>

definition filteredTasks ::
  "(string \<Rightarrow> string) \<Rightarrow> Task list \<Rightarrow> TaskStatus option \<Rightarrow> string option \<Rightarrow> Task list" where
  "filteredTasks toLowerCase tasks status_arg title_arg =
     (let f1 = (case status_arg of
                  None \<Rightarrow> tasks
                | Some s \<Rightarrow> filter (\<lambda>task. status task = s) tasks);
          f2 = (case title_arg of
                  None \<Rightarrow> f1
                | Some t \<Rightarrow>
                    if t = [] then f1
                    else filter (\<lambda>task. includes_str (toLowerCase (title task)) (toLowerCase t)) f1)
      in f2)"

text \<open>
  \<open>getAll\<close>. The parameters \<open>page = 1\<close> and \<open>limit = 10\<close> take their default when the
  argument is absent (\<open>None\<close>). \<open>if (status)\<close> holds for each of the three enum strings,
  \<open>if (title)\<close> fails for the empty string.
\<close>

definition getAll ::
  "(string \<Rightarrow> string) \<Rightarrow> Task list \<Rightarrow> TaskStatus option \<Rightarrow> string option
     \<Rightarrow> int option \<Rightarrow> int option \<Rightarrow> TaskPage" where
  "getAll toLowerCase tasks status_arg title_arg page_arg limit_arg =
     (let pg = (case page_arg of None \<Rightarrow> 1 | Some p \<Rightarrow> p);
          lim = (case limit_arg of None \<Rightarrow> 10 | Some l \<Rightarrow> l);
          filtered = filteredTasks toLowerCase tasks status_arg title_arg;
          startIndex = (pg - 1) * lim;
          endIndex = pg * lim;
          paginatedTasks = slice filtered startIndex endIndex
      in \<lparr> total = length filtered, page = pg, limit = lim, data = paginatedTasks \<rparr>)"


text \<open>
  \<open>create\<close>. \<open>uuid\<close> is the value of \<open>uuidv4()\<close>; \<open>now1\<close> and \<open>now2\<close> are the values of
  the two \<open>new Date()\<close> expressions, in the order of the object literal.
\<close>

definition create :: "Task list \<Rightarrow> CreateData \<Rightarrow> string \<Rightarrow> int \<Rightarrow> int \<Rightarrow> Task list \<times> Task" where
  "create tasks d uuid now1 now2 =
     (let newTask = \<lparr> id_t = uuid, title = title_d d, description = description_d d,
                       status = PENDING, createdAt = now1, updatedAt = now2 \<rparr>
      in (tasks @ [newTask], newTask))"

text \<open>
  The object literal \<open>{ ...old, ...d, updatedAt: now }\<close> of \<open>update\<close>: a key present in
  \<open>d\<close> replaces the one of \<open>old\<close>, and \<open>updatedAt\<close> is written last.
\<close>

definition spread :: "Task \<Rightarrow> PartialTask \<Rightarrow> int \<Rightarrow> Task" where
  "spread old d now =
     \<lparr> id_t = (case id_p d of None \<Rightarrow> id_t old | Some v \<Rightarrow> v),
       title = (case title_p d of None \<Rightarrow> title old | Some v \<Rightarrow> v),
       description = (case description_p d of None \<Rightarrow> description old | Some v \<Rightarrow> v),
       status = (case status_p d of None \<Rightarrow> status old | Some v \<Rightarrow> v),
       createdAt = (case createdAt_p d of None \<Rightarrow> createdAt old | Some v \<Rightarrow> v),
       updatedAt = now \<rparr>"

text \<open>\<open>update\<close>, with \<open>null\<close> as \<open>None\<close>; \<open>now\<close> is the value of \<open>new Date()\<close>.\<close>

definition update :: "Task list \<Rightarrow> string \<Rightarrow> PartialTask \<Rightarrow> int \<Rightarrow> Task list \<times> Task option" where
  "update tasks i d now =
     (let taskIndex = findIndex (\<lambda>task. id_t task = i) tasks
      in if taskIndex = - 1 then (tasks, None)
         else (let tasks' = tasks[nat taskIndex := spread (tasks ! nat taskIndex) d now]
               in (tasks', Some (tasks' ! nat taskIndex))))"

text \<open>\<open>remove\<close>.\<close>

definition remove :: "Task list \<Rightarrow> string \<Rightarrow> Task list \<times> bool" where
  "remove tasks i =
     (let initialLength = length tasks;
          tasks' = filter (\<lambda>task. id_t task \<noteq> i) tasks
      in (tasks', length tasks' < initialLength))"

section \<open>Sequences of store operations\<close>

text \<open>
  One call of an exported function, with what the environment supplied to it, and the
  array \<open>tasks\<close> after the call. The module starts with \<open>tasks = []\<close>.
\<close>

datatype Op =
    OpCreate CreateData string int int
  | OpGetById string
  | OpGetAll "TaskStatus option" "string option" "int option" "int option"
  | OpUpdate string PartialTask int
  | OpRemove string

fun step :: "Task list \<Rightarrow> Op \<Rightarrow> Task list" where
  "step tasks (OpCreate d uuid now1 now2) = fst (create tasks d uuid now1 now2)"
| "step tasks (OpGetById i) = tasks"
| "step tasks (OpGetAll s t p l) = tasks"
| "step tasks (OpUpdate i d now) = fst (update tasks i d now)"
| "step tasks (OpRemove i) = fst (remove tasks i)"

definition run :: "Op list \<Rightarrow> Task list \<Rightarrow> Task list" where
  "run ops tasks = foldl step tasks ops"

text \<open>
  A payload of \<open>update\<close> drawn from \<open>title\<close>, \<open>description\<close> and \<open>status\<close>, the keys
  that \<open>updateTaskSchema\<close> admits: no other key of \<open>Task\<close> is present.
\<close>

definition only_editable :: "PartialTask \<Rightarrow> bool" where
  "only_editable d = (id_p d = None \<and> createdAt_p d = None \<and> updatedAt_p d = None)"

text \<open>
  \<open>updateTaskSchema\<close> of models/task.model.ts, which the route applies to the request
  body before \<open>update\<close> is called: a Joi object schema admits no key it does not list,
  \<open>title\<close> has 3 to 50 characters, \<open>description\<close> 3 to 255, \<open>status\<close> is one of the
  enum values, and \<open>min(1)\<close> asks for at least one key.
\<close>

definition updateTaskSchema :: "PartialTask \<Rightarrow> bool" where
  "updateTaskSchema b =
     (id_p b = None \<and> createdAt_p b = None \<and> updatedAt_p b = None
      \<and> (case title_p b of None \<Rightarrow> True | Some t \<Rightarrow> 3 \<le> length t \<and> length t \<le> 50)
      \<and> (case description_p b of None \<Rightarrow> True | Some t \<Rightarrow> 3 \<le> length t \<and> length t \<le> 255)
      \<and> (title_p b \<noteq> None \<or> description_p b \<noteq> None \<or> status_p b \<noteq> None))"


text \<open>
  What a sequence of operations takes from the environment: the ids that \<open>uuidv4()\<close>
  returned, and the instants that \<open>new Date()\<close> read, both in the order of the calls.
\<close>

fun generated_ids :: "Op list \<Rightarrow> string list" where
  "generated_ids [] = []"
| "generated_ids (OpCreate d uuid now1 now2 # ops) = uuid # generated_ids ops"
| "generated_ids (op # ops) = generated_ids ops"

fun clock_reads :: "Op list \<Rightarrow> int list" where
  "clock_reads [] = []"
| "clock_reads (OpCreate d uuid now1 now2 # ops) = now1 # now2 # clock_reads ops"
| "clock_reads (OpUpdate i d now # ops) = now # clock_reads ops"
| "clock_reads (op # ops) = clock_reads ops"

text \<open>
  An operation whose payload, if it is an \<open>update\<close>, has no \<open>id\<close> key; and one whose
  payload has no \<open>createdAt\<close> key. A payload that \<open>updateTaskSchema\<close> accepts has
  neither.
\<close>

fun no_id_key :: "Op \<Rightarrow> bool" where
  "no_id_key (OpUpdate i d now) = (id_p d = None)"
| "no_id_key op = True"

fun no_createdAt_key :: "Op \<Rightarrow> bool" where
  "no_createdAt_key (OpUpdate i d now) = (createdAt_p d = None)"
| "no_createdAt_key op = True"

text \<open>
  The ids of the live tasks as the specification describes them: \<open>create\<close> appends the
  generated id, \<open>remove\<close> deletes the given id, and no other operation changes an id.
\<close>

fun step_ids :: "string list \<Rightarrow> Op \<Rightarrow> string list" where
  "step_ids ids (OpCreate d uuid now1 now2) = ids @ [uuid]"
| "step_ids ids (OpRemove i) = filter (\<lambda>x. x \<noteq> i) ids"
| "step_ids ids op = ids"

section \<open>The filtered set and the pages, as the specification words them\<close>

text \<open>
  The filtered set: the tasks whose status is the given one, when a status is given,
  and among these the tasks whose title contains the given text when both are put in
  lower case, when a text is given; in the order of the collection. The empty text is
  contained in every title.
\<close>

definition matches_status :: "TaskStatus option \<Rightarrow> Task \<Rightarrow> bool" where
  "matches_status st task = (case st of None \<Rightarrow> True | Some s \<Rightarrow> status task = s)"

definition matches_title :: "(string \<Rightarrow> string) \<Rightarrow> string option \<Rightarrow> Task \<Rightarrow> bool" where
  "matches_title toLowerCase ti task =
     (case ti of
        None \<Rightarrow> True
      | Some x \<Rightarrow> x = [] \<or> sublist (toLowerCase x) (toLowerCase (title task)))"

definition filtered_set ::
  "(string \<Rightarrow> string) \<Rightarrow> Task list \<Rightarrow> TaskStatus option \<Rightarrow> string option \<Rightarrow> Task list" where
  "filtered_set toLowerCase tasks st ti
     = filter (matches_title toLowerCase ti) (filter (matches_status st) tasks)"

text \<open>The \<open>data\<close> arrays of the pages 1 to \<open>k\<close>, for a fixed limit, one after the other.\<close>

definition pages_concat ::
  "(string \<Rightarrow> string) \<Rightarrow> Task list \<Rightarrow> TaskStatus option \<Rightarrow> string option \<Rightarrow> int \<Rightarrow> nat
     \<Rightarrow> Task list" where
  "pages_concat toLowerCase tasks st ti lim k =
     concat (map (\<lambda>p. data (getAll toLowerCase tasks st ti (Some (int p)) (Some lim)))
       [1..<Suc k])"

section \<open>Sample data\<close>

text \<open>
  The two tasks of the scenario of the specification, as \<open>create\<close> stores them when
  \<open>uuidv4()\<close> returns \<open>a\<close> and then \<open>b\<close>.
\<close>

definition taskA :: Task where
  "taskA = \<lparr> id_t = ''a'', title = ''Buy milk'', description = ''2% milk'',
              status = PENDING, createdAt = 1000, updatedAt = 1000 \<rparr>"

definition taskB :: Task where
  "taskB = \<lparr> id_t = ''b'', title = ''Write report'', description = ''Q3 report'',
              status = PENDING, createdAt = 2000, updatedAt = 2000 \<rparr>"

definition taskC :: Task where
  "taskC = \<lparr> id_t = ''c'', title = ''Plan trip'', description = ''Book flights'',
              status = COMPLETED, createdAt = 2500, updatedAt = 2600 \<rparr>"

text \<open>The arguments of the two \<open>create\<close> calls, and the payload \<open>{ status: "IN_PROGRESS" }\<close>.\<close>

definition dataA :: CreateData where
  "dataA = \<lparr> title_d = ''Buy milk'', description_d = ''2% milk'' \<rparr>"

definition dataB :: CreateData where
  "dataB = \<lparr> title_d = ''Write report'', description_d = ''Q3 report'' \<rparr>"

text \<open>The payloads \<open>{ id: "b" }\<close> and \<open>{ createdAt: 9999 }\<close>.\<close>

definition idToB :: PartialTask where
  "idToB = \<lparr> id_p = Some ''b'', title_p = None, description_p = None,
              status_p = None, createdAt_p = None, updatedAt_p = None \<rparr>"

definition createdAtLater :: PartialTask where
  "createdAtLater = \<lparr> id_p = None, title_p = None, description_p = None,
                       status_p = None, createdAt_p = Some 9999, updatedAt_p = None \<rparr>"

definition toInProgress :: PartialTask where
  "toInProgress = \<lparr> id_p = None, title_p = None, description_p = None,
                     status_p = Some IN_PROGRESS, createdAt_p = None, updatedAt_p = None \<rparr>"

text \<open>
  The scenario: create A, create B, then \<open>update(A.id, { status: "IN_PROGRESS" })\<close>,
  with a clock that reads 1000, 2000 and 3000.
\<close>

definition scenario :: "Op list" where
  "scenario = [OpCreate dataA ''a'' 1000 1000, OpCreate dataB ''b'' 2000 2000,
               OpUpdate ''a'' toInProgress 3000]"

text \<open>
  A lower-casing function for evaluating the sample data: it maps the letters \<open>A\<close> to
  \<open>Z\<close> to \<open>a\<close> to \<open>z\<close> and keeps every other character, which is what
  \<open>toLowerCase\<close> does on the ASCII strings of the samples.
\<close>

definition ascii_lower :: "string \<Rightarrow> string" where
  "ascii_lower s =
     map (\<lambda>c. let n = (of_char c :: nat) in if 65 \<le> n \<and> n \<le> 90 then char_of (n + 32) else c) s"

section \<open>Facts about the built-ins\<close>

lemma includes_str_sublist: "includes_str s t \<longleftrightarrow> sublist t s"
  by (induction s) (simp_all add: sublist_Cons_right)

lemma findIndex_absent: "i \<notin> f ` set xs \<Longrightarrow> findIndex (\<lambda>x. f x = i) xs = - 1"
  by (auto simp: findIndex_def list_ex_iff)

lemma first_index_props:
  assumes "i \<in> f ` set xs"
  defines "k \<equiv> length (takeWhile (\<lambda>x. f x \<noteq> i) xs)"
  shows "k < length xs" and "f (xs ! k) = i" and "\<forall>j<k. f (xs ! j) \<noteq> i"
proof -
  have "takeWhile (\<lambda>x. f x \<noteq> i) xs \<noteq> xs"
    using assms(1) by auto
  then have "length (takeWhile (\<lambda>x. f x \<noteq> i) xs) \<noteq> length xs"
    by (metis takeWhile_eq_take take_all order_refl)
  with length_takeWhile_le [of "\<lambda>x. f x \<noteq> i" xs] show lt: "k < length xs"
    by (simp add: k_def)
  from nth_length_takeWhile [of "\<lambda>x. f x \<noteq> i" xs] lt show "f (xs ! k) = i"
    by (simp add: k_def)
  show "\<forall>j<k. f (xs ! j) \<noteq> i"
  proof (intro allI impI)
    fix j assume j: "j < k"
    then have "takeWhile (\<lambda>x. f x \<noteq> i) xs ! j \<in> set (takeWhile (\<lambda>x. f x \<noteq> i) xs)"
      by (simp add: k_def)
    then have "f (takeWhile (\<lambda>x. f x \<noteq> i) xs ! j) \<noteq> i"
      by (rule set_takeWhileD [THEN conjunct2])
    with j show "f (xs ! j) \<noteq> i"
      by (simp add: k_def takeWhile_nth)
  qed
qed

lemma findIndex_present:
  "i \<in> f ` set xs \<Longrightarrow>
     findIndex (\<lambda>x. f x = i) xs = int (length (takeWhile (\<lambda>x. f x \<noteq> i) xs))"
  by (auto simp: findIndex_def list_ex_iff)

section \<open>update, step by step\<close>

lemma updateTaskSchema_only_editable: "updateTaskSchema b \<Longrightarrow> only_editable b"
  by (simp add: updateTaskSchema_def only_editable_def)

lemma update_absent: "i \<notin> id_t ` set tasks \<Longrightarrow> update tasks i d now = (tasks, None)"
  by (simp add: update_def findIndex_absent)

lemma update_present:
  assumes "i \<in> id_t ` set tasks"
  defines "k \<equiv> length (takeWhile (\<lambda>task. id_t task \<noteq> i) tasks)"
  shows "update tasks i d now
           = (tasks[k := spread (tasks ! k) d now], Some (spread (tasks ! k) d now))"
proof -
  have "k < length tasks"
    unfolding k_def using assms(1) by (rule first_index_props(1))
  then show ?thesis
    by (simp add: update_def findIndex_present [OF assms(1)] k_def [symmetric] Let_def)
qed





section \<open>remove\<close>

lemma remove_result: "snd (remove tasks i) = (i \<in> id_t ` set tasks)"
proof (cases "i \<in> id_t ` set tasks")
  case True
  then obtain x where "x \<in> set tasks" and "\<not> id_t x \<noteq> i"
    by auto
  then have "length (filter (\<lambda>task. id_t task \<noteq> i) tasks) < length tasks"
    by (rule length_filter_less)
  with True show ?thesis
    by (simp add: remove_def Let_def)
next
  case False
  then have "filter (\<lambda>task. id_t task \<noteq> i) tasks = tasks"
    by (auto simp: filter_id_conv)
  with False show ?thesis
    by (simp add: remove_def Let_def)
qed

lemma remove_state: "fst (remove tasks i) = filter (\<lambda>task. id_t task \<noteq> i) tasks"
  by (simp add: remove_def Let_def)

text \<open>
  C7. \<open>remove i\<close> returns true exactly when a task with id \<open>i\<close> is stored; afterwards no
  task has that id and the other tasks are kept in their order; hence a second
  \<open>remove i\<close> returns false, and the two calls return true then false when the id was
  present.
\<close>

theorem remove_iff_and_twice:
  "snd (remove tasks i) = (i \<in> id_t ` set tasks)
   \<and> i \<notin> id_t ` set (fst (remove tasks i))
   \<and> fst (remove tasks i) = filter (\<lambda>task. id_t task \<noteq> i) tasks
   \<and> snd (remove (fst (remove tasks i)) i) = False
   \<and> (i \<in> id_t ` set tasks \<longrightarrow>
        snd (remove tasks i) = True \<and> snd (remove (fst (remove tasks i)) i) = False)"
  by (auto simp: remove_result remove_state)

theorem remove_iff_and_twice_witness:
  "''a'' \<in> id_t ` set [taskA, taskB]
   \<and> snd (remove [taskA, taskB] ''a'') = True
   \<and> fst (remove [taskA, taskB] ''a'') = [taskB]
   \<and> snd (remove (fst (remove [taskA, taskB] ''a'')) ''a'') = False"
  using remove_iff_and_twice [of "[taskA, taskB]" "''a''"]
  by (simp add: taskA_def taskB_def remove_def)

section \<open>create, step by step\<close>

lemma create_snd:
  "snd (create tasks d uuid now1 now2)
     = \<lparr> id_t = uuid, title = title_d d, description = description_d d,
         status = PENDING, createdAt = now1, updatedAt = now2 \<rparr>"
  by (simp add: create_def Let_def)

lemma create_fst:
  "fst (create tasks d uuid now1 now2) = tasks @ [snd (create tasks d uuid now1 now2)]"
  by (simp add: create_def Let_def)

section \<open>getById\<close>






section \<open>update\<close>

text \<open>
  C4. When a task with id \<open>i\<close> is stored and the payload is drawn from \<open>title\<close>,
  \<open>description\<close> and \<open>status\<close>, \<open>update\<close> replaces the first task with that id, at
  its position \<open>k\<close>, by a record in which each field the payload provides has the
  payload's value, \<open>updatedAt\<close> is the instant of the call, and every other field, \<open>id\<close>
  and \<open>createdAt\<close> among them, is the old one; it returns that record; the array keeps
  its length and every task at another position.
\<close>

theorem update_partial_frame:
  assumes "i \<in> id_t ` set tasks" and "only_editable d"
  shows "\<exists>k new. k < length tasks \<and> id_t (tasks ! k) = i \<and> (\<forall>j<k. id_t (tasks ! j) \<noteq> i)
           \<and> update tasks i d now = (tasks[k := new], Some new)
           \<and> title new = (case title_p d of None \<Rightarrow> title (tasks ! k) | Some v \<Rightarrow> v)
           \<and> description new
                = (case description_p d of None \<Rightarrow> description (tasks ! k) | Some v \<Rightarrow> v)
           \<and> status new = (case status_p d of None \<Rightarrow> status (tasks ! k) | Some v \<Rightarrow> v)
           \<and> updatedAt new = now
           \<and> id_t new = id_t (tasks ! k)
           \<and> createdAt new = createdAt (tasks ! k)
           \<and> length (fst (update tasks i d now)) = length tasks
           \<and> (\<forall>j<length tasks. j \<noteq> k \<longrightarrow> fst (update tasks i d now) ! j = tasks ! j)"
proof -
  define k where "k = length (takeWhile (\<lambda>task. id_t task \<noteq> i) tasks)"
  define new where "new = spread (tasks ! k) d now"
  have k: "k < length tasks" and idk: "id_t (tasks ! k) = i"
    and first: "\<forall>j<k. id_t (tasks ! j) \<noteq> i"
    unfolding k_def using first_index_props [OF assms(1)] by simp_all
  have upd: "update tasks i d now = (tasks[k := new], Some new)"
    unfolding new_def k_def by (rule update_present [OF assms(1)])
  have fields: "title new = (case title_p d of None \<Rightarrow> title (tasks ! k) | Some v \<Rightarrow> v)"
    "description new
       = (case description_p d of None \<Rightarrow> description (tasks ! k) | Some v \<Rightarrow> v)"
    "status new = (case status_p d of None \<Rightarrow> status (tasks ! k) | Some v \<Rightarrow> v)"
    "updatedAt new = now"
    by (simp_all add: new_def spread_def)
  have kept: "id_t new = id_t (tasks ! k)" "createdAt new = createdAt (tasks ! k)"
    using assms(2) by (simp_all add: new_def spread_def only_editable_def)
  have frame: "length (fst (update tasks i d now)) = length tasks"
    "\<forall>j<length tasks. j \<noteq> k \<longrightarrow> fst (update tasks i d now) ! j = tasks ! j"
    by (simp_all add: upd)
  from k idk first upd fields kept frame show ?thesis
    by blast
qed

theorem update_partial_frame_witness:
  "''a'' \<in> id_t ` set [taskA, taskB] \<and> only_editable toInProgress
   \<and> update [taskA, taskB] ''a'' toInProgress 3000
       = ([taskA\<lparr>status := IN_PROGRESS, updatedAt := 3000\<rparr>, taskB],
          Some (taskA\<lparr>status := IN_PROGRESS, updatedAt := 3000\<rparr>))"
proof -
  have h1: "''a'' \<in> id_t ` set [taskA, taskB]"
    by (simp add: taskA_def)
  have h2: "only_editable toInProgress"
    by (simp add: only_editable_def toInProgress_def)
  from update_partial_frame [OF h1 h2, of 3000]
  obtain k new where k: "k < length [taskA, taskB]" and idk: "id_t ([taskA, taskB] ! k) = ''a''"
    and upd: "update [taskA, taskB] ''a'' toInProgress 3000 = ([taskA, taskB][k := new], Some new)"
    and f: "title new = (case title_p toInProgress of None \<Rightarrow> title ([taskA, taskB] ! k) | Some v \<Rightarrow> v)"
      "description new = (case description_p toInProgress of None \<Rightarrow> description ([taskA, taskB] ! k) | Some v \<Rightarrow> v)"
      "status new = (case status_p toInProgress of None \<Rightarrow> status ([taskA, taskB] ! k) | Some v \<Rightarrow> v)"
      "updatedAt new = 3000" "id_t new = id_t ([taskA, taskB] ! k)"
      "createdAt new = createdAt ([taskA, taskB] ! k)"
    by blast
  from k idk have k0: "k = 0"
    by (cases k) (simp_all add: taskB_def)
  from f have "new = taskA\<lparr>status := IN_PROGRESS, updatedAt := 3000\<rparr>"
    by (simp add: k0 toInProgress_def taskA_def)
  with upd k0 h1 h2 show ?thesis
    by simp
qed

section \<open>create\<close>

text \<open>
  What \<open>create\<close> does for every argument: the new record has status \<open>PENDING\<close>, the
  generated id, the given title and description, and the two clock readings; it is
  appended, so the stored tasks keep their values and their order; an id that no
  stored task has keeps pairwise distinct ids distinct.
\<close>

lemma create_postcondition:
  "status (snd (create tasks d uuid now1 now2)) = PENDING
   \<and> id_t (snd (create tasks d uuid now1 now2)) = uuid
   \<and> title (snd (create tasks d uuid now1 now2)) = title_d d
   \<and> description (snd (create tasks d uuid now1 now2)) = description_d d
   \<and> createdAt (snd (create tasks d uuid now1 now2)) = now1
   \<and> updatedAt (snd (create tasks d uuid now1 now2)) = now2
   \<and> fst (create tasks d uuid now1 now2) = tasks @ [snd (create tasks d uuid now1 now2)]
   \<and> take (length tasks) (fst (create tasks d uuid now1 now2)) = tasks"
  by (simp add: create_fst) (simp add: create_snd)

lemma create_distinct_ids:
  "uuid \<notin> id_t ` set tasks \<Longrightarrow> distinct (map id_t tasks) \<Longrightarrow>
     distinct (map id_t (fst (create tasks d uuid now1 now2)))"
  by (simp add: create_fst create_snd)

text \<open>
  C3. \<open>create\<close> evaluates \<open>new Date()\<close> once for \<open>createdAt\<close> and once more for
  \<open>updatedAt\<close>: the returned task carries the first reading in \<open>createdAt\<close> and the
  second in \<open>updatedAt\<close>. When the clock ticks between the two readings (1000, then
  1001) the returned task has \<open>createdAt = 1000\<close> and \<open>updatedAt = 1001\<close>: the two are
  not equal.
\<close>

theorem create_reads_clock_twice:
  "createdAt (snd (create tasks d uuid now1 now2)) = now1
   \<and> updatedAt (snd (create tasks d uuid now1 now2)) = now2
   \<and> createdAt (snd (create [] dataA ''a'' 1000 1001)) = 1000
   \<and> updatedAt (snd (create [] dataA ''a'' 1000 1001)) = 1001
   \<and> createdAt (snd (create [] dataA ''a'' 1000 1001))
       \<noteq> updatedAt (snd (create [] dataA ''a'' 1000 1001))"
proof -
  have "snd (create [] dataA ''a'' 1000 1001)
          = \<lparr> id_t = ''a'', title = ''Buy milk'', description = ''2% milk'',
              status = PENDING, createdAt = 1000, updatedAt = 1001 \<rparr>"
    by (simp add: create_snd dataA_def)
  then show ?thesis
    by (simp add: create_snd)
qed

section \<open>The ids of the live tasks\<close>

lemma spread_keeps_id: "id_p d = None \<Longrightarrow> id_t (spread old d now) = id_t old"
  by (simp add: spread_def)

lemma update_keeps_ids:
  assumes "id_p d = None"
  shows "map id_t (fst (update tasks i d now)) = map id_t tasks"
proof (cases "i \<in> id_t ` set tasks")
  case False
  then show ?thesis by (simp add: update_absent)
next
  case True
  define k where "k = length (takeWhile (\<lambda>task. id_t task \<noteq> i) tasks)"
  have "map id_t (tasks[k := spread (tasks ! k) d now])
          = (map id_t tasks)[k := id_t (tasks ! k)]"
    by (simp add: map_update spread_keeps_id [OF assms])
  also have "\<dots> = map id_t tasks"
    by (metis list_update_id map_update)
  finally show ?thesis
    by (simp add: update_present [OF True] k_def)
qed

lemma step_ids_step:
  "no_id_key op \<Longrightarrow> map id_t (step tasks op) = step_ids (map id_t tasks) op"
proof (cases op)
  case (OpCreate d uuid now1 now2)
  then show ?thesis by (simp add: create_fst create_snd)
next
  case (OpUpdate i d now)
  moreover assume "no_id_key op"
  ultimately show ?thesis by (simp add: update_keeps_ids)
next
  case (OpRemove i)
  then show ?thesis by (simp add: remove_state filter_map comp_def)
qed simp_all

lemma run_ids:
  "list_all no_id_key ops \<Longrightarrow> map id_t (run ops tasks) = foldl step_ids (map id_t tasks) ops"
proof (induction ops arbitrary: tasks)
  case Nil
  then show ?case by (simp add: run_def)
next
  case (Cons op ops)
  then have "map id_t (run ops (step tasks op)) = foldl step_ids (map id_t (step tasks op)) ops"
    by simp
  with Cons.prems show ?case
    by (simp add: run_def step_ids_step)
qed

lemma set_step_ids: "set (step_ids ids op) \<subseteq> set ids \<union> set (generated_ids [op])"
  by (cases op) auto

lemma generated_ids_Cons: "generated_ids (op # ops) = generated_ids [op] @ generated_ids ops"
  by (cases op) simp_all

lemma distinct_step_ids:
  "distinct ids \<Longrightarrow> set ids \<inter> set (generated_ids [op]) = {} \<Longrightarrow> distinct (step_ids ids op)"
  by (cases op) auto

lemma distinct_foldl_step_ids:
  "distinct ids \<Longrightarrow> distinct (generated_ids ops) \<Longrightarrow> set ids \<inter> set (generated_ids ops) = {}
     \<Longrightarrow> distinct (foldl step_ids ids ops)"
proof (induction ops arbitrary: ids)
  case Nil
  then show ?case by simp
next
  case (Cons op ops)
  let ?g = "generated_ids [op]" and ?gs = "generated_ids ops"
  from Cons.prems(2) have d: "distinct ?gs" and disj: "set ?g \<inter> set ?gs = {}"
    by (simp_all add: generated_ids_Cons [of op ops])
  from Cons.prems(3) have i1: "set ids \<inter> set ?g = {}" and i2: "set ids \<inter> set ?gs = {}"
    by (auto simp: generated_ids_Cons [of op ops])
  have "distinct (step_ids ids op)"
    using Cons.prems(1) i1 by (rule distinct_step_ids)
  moreover have "set (step_ids ids op) \<inter> set ?gs = {}"
    using set_step_ids [of ids op] disj i2 by blast
  ultimately have "distinct (foldl step_ids (step_ids ids op) ops)"
    using d by (intro Cons.IH)
  then show ?case by simp
qed

text \<open>
  C5, as the code has it. Let the ids returned by \<open>uuidv4()\<close> be pairwise distinct and
  no payload of \<open>update\<close> have an \<open>id\<close> key. Then in the store reached by any sequence
  of operations from the empty store, the ids of the live tasks are, position by
  position, the ids generated at their creation (the generated ids in order, less the
  removed ones), and they are pairwise distinct. In any store, \<open>getById\<close>, \<open>getAll\<close> and
  an \<open>update\<close> whose payload has no \<open>id\<close> key leave the id at every position as it was.
\<close>

theorem id_integrity:
  assumes "distinct (generated_ids ops)" and "list_all no_id_key ops"
  shows "map id_t (run ops []) = foldl step_ids [] ops
         \<and> distinct (map id_t (run ops []))
         \<and> (\<forall>tasks i d now. id_p d = None \<longrightarrow>
               map id_t (step tasks (OpUpdate i d now)) = map id_t tasks)
         \<and> (\<forall>tasks i. map id_t (step tasks (OpGetById i)) = map id_t tasks)
         \<and> (\<forall>tasks s t p l. map id_t (step tasks (OpGetAll s t p l)) = map id_t tasks)"
proof -
  have ids: "map id_t (run ops []) = foldl step_ids [] ops"
    using run_ids [OF assms(2), of "[]"] by simp
  have "distinct (foldl step_ids [] ops)"
    using assms(1) by (intro distinct_foldl_step_ids) simp_all
  with ids have dist: "distinct (map id_t (run ops []))"
    by simp
  have upd: "\<forall>tasks i d now. id_p d = None \<longrightarrow>
               map id_t (step tasks (OpUpdate i d now)) = map id_t tasks"
    by (simp add: update_keeps_ids)
  from ids dist upd show ?thesis
    by simp
qed

theorem id_integrity_witness:
  "distinct (generated_ids (scenario @ [OpRemove ''a'']))
   \<and> list_all no_id_key (scenario @ [OpRemove ''a''])
   \<and> map id_t (run (scenario @ [OpRemove ''a'']) []) = [''b'']
   \<and> distinct (map id_t (run (scenario @ [OpRemove ''a'']) []))"
  using id_integrity [of "scenario @ [OpRemove ''a'']"]
  by (simp add: scenario_def toInProgress_def)

text \<open>
  C5, as the claim words it (no operation changes an id, \<open>update\<close> included), fails on
  the store: \<open>update\<close> spreads every key of its payload over the stored task. After
  create A and create B, with the distinct generated ids \<open>a\<close> and \<open>b\<close>,
  \<open>update("a", { id: "b" })\<close> changes the id of A to \<open>b\<close>, and two live tasks share an
  id.
\<close>

theorem id_overwritten_counterexample:
  "distinct (generated_ids [OpCreate dataA ''a'' 1000 1000, OpCreate dataB ''b'' 2000 2000,
                            OpUpdate ''a'' idToB 3000])
   \<and> map id_t (run [OpCreate dataA ''a'' 1000 1000, OpCreate dataB ''b'' 2000 2000] [])
       = [''a'', ''b'']
   \<and> map id_t (run [OpCreate dataA ''a'' 1000 1000, OpCreate dataB ''b'' 2000 2000,
                     OpUpdate ''a'' idToB 3000] [])
       = [''b'', ''b'']
   \<and> \<not> distinct (map id_t (run [OpCreate dataA ''a'' 1000 1000,
                                   OpCreate dataB ''b'' 2000 2000,
                                   OpUpdate ''a'' idToB 3000] []))"
  by (simp add: run_def create_def update_def findIndex_def spread_def idToB_def Let_def)

section \<open>Timestamps\<close>

lemma spread_keeps_createdAt:
  "createdAt_p d = None \<Longrightarrow> createdAt (spread old d now) = createdAt old"
  by (simp add: spread_def)

lemma spread_updatedAt: "updatedAt (spread old d now) = now"
  by (simp add: spread_def)

lemma set_update_cases:
  assumes "t \<in> set (fst (update tasks i d now))"
  shows "t \<in> set tasks \<or> (\<exists>old\<in>set tasks. t = spread old d now)"
proof (cases "i \<in> id_t ` set tasks")
  case False
  with assms show ?thesis by (simp add: update_absent)
next
  case True
  define k where "k = length (takeWhile (\<lambda>task. id_t task \<noteq> i) tasks)"
  have k: "k < length tasks"
    unfolding k_def using True by (rule first_index_props(1))
  from assms have "t \<in> set (tasks[k := spread (tasks ! k) d now])"
    by (simp add: update_present [OF True] k_def)
  then have "t \<in> insert (spread (tasks ! k) d now) (set tasks)"
    using set_update_subset_insert by fastforce
  with k show ?thesis
    by auto
qed

text \<open>
  The invariant carried along a run: every stored task has \<open>createdAt \<le> updatedAt\<close>, and
  its \<open>updatedAt\<close> is not later than any instant the clock will still read.
\<close>

lemma timestamps_step:
  assumes inv: "\<forall>t\<in>set tasks. createdAt t \<le> updatedAt t
                  \<and> (\<forall>r\<in>set (clock_reads (op # ops)). updatedAt t \<le> r)"
    and sorted: "sorted (clock_reads (op # ops))"
    and pay: "no_createdAt_key op"
  shows "\<forall>t\<in>set (step tasks op). createdAt t \<le> updatedAt t
           \<and> (\<forall>r\<in>set (clock_reads ops). updatedAt t \<le> r)"
proof (cases op)
  case (OpCreate d uuid now1 now2)
  with sorted have "now1 \<le> now2" and "\<forall>r\<in>set (clock_reads ops). now2 \<le> r"
    by simp_all
  with inv OpCreate show ?thesis
    by (auto simp: create_fst create_snd)
next
  case (OpGetById i)
  with inv show ?thesis by simp
next
  case (OpGetAll s ti p l)
  with inv show ?thesis by simp
next
  case (OpUpdate i d now)
  with pay have ed: "createdAt_p d = None" by simp
  from sorted OpUpdate have later: "\<forall>r\<in>set (clock_reads ops). now \<le> r"
    by simp
  show ?thesis
  proof
    fix t assume "t \<in> set (step tasks op)"
    with OpUpdate have "t \<in> set (fst (update tasks i d now))" by simp
    then consider "t \<in> set tasks" | old where "old \<in> set tasks" and "t = spread old d now"
      using set_update_cases by blast
    then show "createdAt t \<le> updatedAt t \<and> (\<forall>r\<in>set (clock_reads ops). updatedAt t \<le> r)"
    proof cases
      case 1
      with inv OpUpdate show ?thesis by simp
    next
      case 2
      from inv 2(1) OpUpdate have "createdAt old \<le> updatedAt old" and "updatedAt old \<le> now"
        by simp_all
      with 2(2) later show ?thesis
        by (simp add: spread_keeps_createdAt [OF ed] spread_updatedAt)
    qed
  qed
next
  case (OpRemove i)
  with inv show ?thesis by (simp add: remove_state)
qed

lemma timestamps_run:
  "\<forall>t\<in>set tasks. createdAt t \<le> updatedAt t \<and> (\<forall>r\<in>set (clock_reads ops). updatedAt t \<le> r)
     \<Longrightarrow> sorted (clock_reads ops) \<Longrightarrow> list_all no_createdAt_key ops
     \<Longrightarrow> \<forall>t\<in>set (run ops tasks). createdAt t \<le> updatedAt t"
proof (induction ops arbitrary: tasks)
  case Nil
  then show ?case by (simp add: run_def)
next
  case (Cons op ops)
  from Cons.prems have pay: "no_createdAt_key op" and pays: "list_all no_createdAt_key ops"
    by simp_all
  have "\<forall>t\<in>set (step tasks op). createdAt t \<le> updatedAt t
          \<and> (\<forall>r\<in>set (clock_reads ops). updatedAt t \<le> r)"
    using Cons.prems(1,2) pay by (rule timestamps_step)
  moreover have "sorted (clock_reads ops)"
    using Cons.prems(2) by (cases op) simp_all
  ultimately have "\<forall>t\<in>set (run ops (step tasks op)). createdAt t \<le> updatedAt t"
    using pays by (intro Cons.IH)
  then show ?case by (simp add: run_def)
qed

lemma update_result_updatedAt:
  "snd (update tasks i d now) = Some t \<Longrightarrow> updatedAt t = now"
proof (cases "i \<in> id_t ` set tasks")
  case False
  moreover assume "snd (update tasks i d now) = Some t"
  ultimately show ?thesis by (simp add: update_absent)
next
  case True
  moreover assume "snd (update tasks i d now) = Some t"
  ultimately show ?thesis
    by (auto simp: update_present spread_updatedAt)
qed

text \<open>
  C6, as the code has it. Let the clock never go back (the instants read by
  \<open>new Date()\<close>, in the order of the calls, are non-decreasing) and no payload of
  \<open>update\<close> have a \<open>createdAt\<close> key. Then in the store reached by any sequence of
  operations from the empty store every task has \<open>updatedAt \<ge> createdAt\<close>. \<open>create\<close>
  establishes it and \<open>update\<close> preserves it, by setting \<open>updatedAt\<close> to the instant
  of the call.
\<close>

theorem timestamp_invariant:
  assumes "sorted (clock_reads ops)" and "list_all no_createdAt_key ops"
  shows "(\<forall>t\<in>set (run ops []). updatedAt t \<ge> createdAt t)
         \<and> (\<forall>tasks d uuid now1 now2. now1 \<le> now2 \<longrightarrow>
               updatedAt (snd (create tasks d uuid now1 now2))
                 \<ge> createdAt (snd (create tasks d uuid now1 now2)))
         \<and> (\<forall>tasks i d now t. snd (update tasks i d now) = Some t \<longrightarrow> updatedAt t = now)"
proof -
  have inv: "\<forall>t\<in>set (run ops []). updatedAt t \<ge> createdAt t"
    using assms by (intro timestamps_run) simp_all
  have cr: "\<forall>tasks d uuid now1 now2. now1 \<le> now2 \<longrightarrow>
               updatedAt (snd (create tasks d uuid now1 now2))
                 \<ge> createdAt (snd (create tasks d uuid now1 now2))"
    by (simp add: create_snd)
  have up: "\<forall>tasks i d now t. snd (update tasks i d now) = Some t \<longrightarrow> updatedAt t = now"
    by (blast intro: update_result_updatedAt)
  show ?thesis
    by (intro conjI inv cr up)
qed

theorem timestamp_invariant_witness:
  "sorted (clock_reads scenario) \<and> list_all no_createdAt_key scenario
   \<and> run scenario [] = [taskA\<lparr>status := IN_PROGRESS, updatedAt := 3000\<rparr>, taskB]
   \<and> list_all (\<lambda>t. updatedAt t \<ge> createdAt t) (run scenario [])"
proof -
  have h1: "sorted (clock_reads scenario)"
    by (simp add: scenario_def)
  have h2: "list_all no_createdAt_key scenario"
    by (simp add: scenario_def toInProgress_def)
  have r: "run scenario [] = [taskA\<lparr>status := IN_PROGRESS, updatedAt := 3000\<rparr>, taskB]"
    by (simp add: scenario_def run_def create_def update_def findIndex_def spread_def
        dataA_def dataB_def toInProgress_def taskA_def taskB_def Let_def)
  from timestamp_invariant [OF h1 h2, THEN conjunct1]
  have "list_all (\<lambda>t. updatedAt t \<ge> createdAt t) (run scenario [])"
    by (simp add: list_all_iff)
  with h1 h2 r show ?thesis
    by simp
qed

text \<open>
  C6, as the claim words it (in every reachable state, whatever the payloads and the
  clock), fails on the store in two ways. With a clock that reads 1000 and then 3000,
  \<open>update("a", { createdAt: 9999 })\<close> leaves the task with \<open>createdAt = 9999\<close> and
  \<open>updatedAt = 3000\<close>. With a clock that reads 2000 at \<open>create\<close> and is then set back
  to 1000, \<open>update("b", { status: "IN_PROGRESS" })\<close> leaves the task with
  \<open>createdAt = 2000\<close> and \<open>updatedAt = 1000\<close>.
\<close>

theorem timestamp_order_counterexample:
  "map (\<lambda>t. (createdAt t, updatedAt t))
     (run [OpCreate dataA ''a'' 1000 1000, OpUpdate ''a'' createdAtLater 3000] [])
     = [(9999, 3000)]
   \<and> map (\<lambda>t. (createdAt t, updatedAt t))
       (run [OpCreate dataB ''b'' 2000 2000, OpUpdate ''b'' toInProgress 1000] [])
     = [(2000, 1000)]"
  by (simp add: run_def create_def update_def findIndex_def spread_def createdAtLater_def
      toInProgress_def Let_def)

section \<open>getAll: filters\<close>

lemma filteredTasks_filtered_set: "filteredTasks lc tasks st ti = filtered_set lc tasks st ti"
proof -
  have mt: "matches_title lc None = (\<lambda>task. True)"
    "x \<noteq> [] \<Longrightarrow> matches_title lc (Some x) = (\<lambda>task. sublist (lc x) (lc (title task)))"
    "matches_title lc (Some []) = (\<lambda>task. True)" for x
    by (rule ext, simp add: matches_title_def)+
  have ms: "matches_status None = (\<lambda>task. True)"
    "matches_status (Some s) = (\<lambda>task. status task = s)" for s
    by (rule ext, simp add: matches_status_def)+
  have title_filter:
    "(case ti of None \<Rightarrow> xs
      | Some t \<Rightarrow> if t = [] then xs
                  else filter (\<lambda>task. includes_str (lc (title task)) (lc t)) xs)
       = filter (matches_title lc ti) xs" for xs
    by (cases ti) (simp_all add: mt includes_str_sublist)
  have status_filter:
    "(case st of None \<Rightarrow> tasks | Some s \<Rightarrow> filter (\<lambda>task. status task = s) tasks)
       = filter (matches_status st) tasks"
    by (cases st) (simp_all add: ms)
  show ?thesis
    by (simp add: filteredTasks_def filtered_set_def Let_def title_filter status_filter)
qed

lemma getAll_fields:
  "total (getAll lc tasks st ti (Some p) (Some l)) = length (filtered_set lc tasks st ti)"
  "page (getAll lc tasks st ti (Some p) (Some l)) = p"
  "limit (getAll lc tasks st ti (Some p) (Some l)) = l"
  "data (getAll lc tasks st ti (Some p) (Some l))
     = slice (filtered_set lc tasks st ti) ((p - 1) * l) (p * l)"
  by (simp_all add: getAll_def Let_def filteredTasks_filtered_set)

section \<open>slice\<close>

lemma slice_nonneg:
  assumes "0 \<le> a" and "0 \<le> b"
  shows "slice xs a b = take (nat b - nat a) (drop (nat a) xs)"
proof (cases "a \<le> int (length xs)")
  case False
  with assms show ?thesis
    by (simp add: slice_def Let_def min_def)
next
  case True
  with assms have k: "min a (int (length xs)) = a"
    by simp
  show ?thesis
  proof (cases "b \<le> int (length xs)")
    case True
    with assms k show ?thesis
      by (simp add: slice_def Let_def nat_diff_distrib')
  next
    case False
    then have "length xs - nat a \<le> nat b - nat a"
      by linarith
    with False assms k \<open>a \<le> int (length xs)\<close> show ?thesis
      by (simp add: slice_def Let_def min_def nat_diff_distrib')
  qed
qed

lemma slice_sublist: "sublist (slice xs a b) xs"
proof -
  have "sublist (take n (drop m xs)) xs" for n m
    by (metis sublist_take sublist_drop sublist_order.order_trans)
  then show ?thesis
    by (simp add: slice_def Let_def)
qed

lemma slice_page:
  assumes "1 \<le> p" and "0 \<le> l"
  shows "slice xs ((p - 1) * l) (p * l) = take (nat l) (drop (nat ((p - 1) * l)) xs)"
proof -
  have a: "0 \<le> (p - 1) * l" and b: "0 \<le> p * l"
    using assms by simp_all
  have "p * l = (p - 1) * l + l"
    by (simp add: algebra_simps)
  then have "nat (p * l) - nat ((p - 1) * l) = nat l"
    using a assms(2) by (simp add: nat_add_distrib)
  with slice_nonneg [OF a b] show ?thesis
    by simp
qed

section \<open>getAll: pages\<close>

lemma getAll_data:
  "data (getAll lc tasks st ti pg lm)
     = slice (filtered_set lc tasks st ti)
         (((case pg of None \<Rightarrow> 1 | Some p \<Rightarrow> p) - 1) * (case lm of None \<Rightarrow> 10 | Some l \<Rightarrow> l))
         ((case pg of None \<Rightarrow> 1 | Some p \<Rightarrow> p) * (case lm of None \<Rightarrow> 10 | Some l \<Rightarrow> l))"
  by (simp add: getAll_def Let_def filteredTasks_filtered_set)

lemma getAll_total: "total (getAll lc tasks st ti pg lm) = length (filtered_set lc tasks st ti)"
  by (simp add: getAll_def Let_def filteredTasks_filtered_set)

lemma page_data:
  assumes "0 < l"
  shows "data (getAll lc tasks st ti (Some (int (Suc k))) (Some l))
           = take (nat l) (drop (k * nat l) (filtered_set lc tasks st ti))"
proof -
  have "nat (int k * l) = k * nat l"
    by (simp add: nat_mult_distrib)
  moreover have "slice (filtered_set lc tasks st ti) ((int (Suc k) - 1) * l) (int (Suc k) * l)
      = take (nat l) (drop (nat ((int (Suc k) - 1) * l)) (filtered_set lc tasks st ti))"
    using assms by (intro slice_page) simp_all
  ultimately show ?thesis
    by (simp add: getAll_fields(4))
qed

lemma pages_concat_Suc:
  "pages_concat lc tasks st ti l (Suc k)
     = pages_concat lc tasks st ti l k @ data (getAll lc tasks st ti (Some (int (Suc k))) (Some l))"
  by (simp add: pages_concat_def)

lemma pages_concat_take:
  assumes "0 < l"
  shows "pages_concat lc tasks st ti l k = take (k * nat l) (filtered_set lc tasks st ti)"
proof (induction k)
  case 0
  show ?case by (simp add: pages_concat_def)
next
  case (Suc k)
  have "take (Suc k * nat l) (filtered_set lc tasks st ti)
          = take (k * nat l + nat l) (filtered_set lc tasks st ti)"
    by (simp add: add.commute)
  also have "\<dots> = take (k * nat l) (filtered_set lc tasks st ti)
                    @ take (nat l) (drop (k * nat l) (filtered_set lc tasks st ti))"
    by (rule take_add)
  finally show ?case
    by (simp only: pages_concat_Suc Suc.IH page_data [OF assms])
qed

lemma pages_concat_limit_zero: "pages_concat lc tasks st ti 0 k = []"
  by (simp add: pages_concat_def getAll_fields(4) slice_def)

text \<open>
  C1, as the code has it. For every store, every pair of optional filters and every
  fixed limit of at least 1, the data arrays of the pages 1 to \<open>k\<close>, one after the
  other, are the first \<open>k * limit\<close> tasks of the filtered set (status filter, then title
  filter) in insertion order; so from the page that reaches the total on they are the
  filtered set itself, nothing twice and nothing left out, and when the stored ids are
  pairwise distinct no id occurs twice in them.
\<close>

theorem pagination_reconstructs:
  assumes "0 < lim"
  shows "pages_concat lc tasks st ti lim k = take (k * nat lim) (filtered_set lc tasks st ti)
         \<and> (length (filtered_set lc tasks st ti) \<le> k * nat lim \<longrightarrow>
              pages_concat lc tasks st ti lim k = filtered_set lc tasks st ti)
         \<and> (distinct (map id_t tasks) \<longrightarrow> distinct (map id_t (pages_concat lc tasks st ti lim k)))"
proof -
  have t: "pages_concat lc tasks st ti lim k = take (k * nat lim) (filtered_set lc tasks st ti)"
    using assms by (rule pages_concat_take)
  have "distinct (map id_t (filtered_set lc tasks st ti))" if "distinct (map id_t tasks)"
    using that by (simp add: filtered_set_def distinct_map_filter)
  then have "distinct (map id_t (take (k * nat lim) (filtered_set lc tasks st ti)))"
    if "distinct (map id_t tasks)"
    using that by (simp add: take_map [symmetric])
  with t show ?thesis
    by simp
qed

theorem pagination_reconstructs_witness:
  "(0::int) < 1 \<and> length (filtered_set ascii_lower [taskA, taskB] None None) \<le> 2 * nat 1
   \<and> data (getAll ascii_lower [taskA, taskB] None None (Some 1) (Some 1))
       @ data (getAll ascii_lower [taskA, taskB] None None (Some 2) (Some 1)) = [taskA, taskB]"
proof -
  have fs: "filtered_set ascii_lower [taskA, taskB] None None = [taskA, taskB]"
    by (simp add: filtered_set_def matches_status_def matches_title_def)
  have "pages_concat ascii_lower [taskA, taskB] None None 1 2 = filtered_set ascii_lower [taskA, taskB] None None"
    using pagination_reconstructs [of 1 ascii_lower "[taskA, taskB]" None None 2] by (simp add: fs)
  moreover have "pages_concat ascii_lower [taskA, taskB] None None 1 2
      = data (getAll ascii_lower [taskA, taskB] None None (Some 1) (Some 1))
        @ data (getAll ascii_lower [taskA, taskB] None None (Some 2) (Some 1))"
    by (simp add: pages_concat_def upt_rec)
  ultimately show ?thesis
    by (simp add: fs)
qed

text \<open>
  C1, as the claim words it (every fixed limit), fails at limit 0: every page is empty,
  and the stored task is never returned.
\<close>

theorem pagination_limit_zero_counterexample:
  "filtered_set ascii_lower [taskA] None None = [taskA] \<and> pages_concat ascii_lower [taskA] None None 0 3 = []
   \<and> pages_concat ascii_lower [taskA] None None 0 3 \<noteq> filtered_set ascii_lower [taskA] None None"
  by (simp add: pages_concat_limit_zero filtered_set_def matches_status_def matches_title_def)

section \<open>getAll: filter correctness\<close>

text \<open>
  C2. For every store, every page and limit, and whatever function \<open>toLowerCase\<close> is:
  \<open>total\<close> is the size of the filtered set; \<open>data\<close> is a contiguous part of the
  filtered set, in its order; with a status given every returned task has exactly that
  status; with a title text given the lower-cased title of every returned task contains
  the lower-cased text (for the empty text: as \<open>toLowerCase\<close> maps the empty string to
  itself); and the filtered set is made of the tasks of the whole collection that pass
  the status filter and then the title filter.
\<close>

theorem list_filter_correct:
  "total (getAll lc tasks st ti pg lm) = length (filtered_set lc tasks st ti)
   \<and> sublist (data (getAll lc tasks st ti pg lm)) (filtered_set lc tasks st ti)
   \<and> (\<forall>task\<in>set (data (getAll lc tasks (Some s) ti pg lm)). status task = s)
   \<and> (x \<noteq> [] \<or> lc [] = [] \<longrightarrow>
        (\<forall>task\<in>set (data (getAll lc tasks st (Some x) pg lm)).
           sublist (lc x) (lc (title task))))
   \<and> (x \<noteq> [] \<or> lc [] = [] \<longrightarrow>
        filteredTasks lc tasks (Some s) (Some x)
          = filter (\<lambda>task. sublist (lc x) (lc (title task)))
              (filter (\<lambda>task. status task = s) tasks))
   \<and> filteredTasks lc tasks st ti
       = filter (matches_title lc ti) (filter (matches_status st) tasks)
   \<and> set (filtered_set lc tasks st ti)
       = {task \<in> set tasks. matches_status st task \<and> matches_title lc ti task}"
proof -
  have sub: "sublist (data (getAll lc tasks st' ti' pg lm)) (filtered_set lc tasks st' ti')"
    for st' ti'
    by (simp add: getAll_data slice_sublist)
  have mem: "set (data (getAll lc tasks st' ti' pg lm)) \<subseteq> set (filtered_set lc tasks st' ti')"
    for st' ti'
    using sub [of st' ti'] by (rule set_mono_sublist)
  have a: "\<forall>task\<in>set (data (getAll lc tasks (Some s) ti pg lm)). status task = s"
    using mem [of "Some s" ti] by (auto simp: filtered_set_def matches_status_def)
  have mt: "matches_title lc (Some x) task = sublist (lc x) (lc (title task))"
    if "x \<noteq> [] \<or> lc [] = []" for task
    using that by (cases "x = []") (simp_all add: matches_title_def)
  have b: "x \<noteq> [] \<or> lc [] = [] \<longrightarrow>
        (\<forall>task\<in>set (data (getAll lc tasks st (Some x) pg lm)).
           sublist (lc x) (lc (title task)))"
  proof (intro impI ballI)
    fix task
    assume h: "x \<noteq> [] \<or> lc [] = []"
      and "task \<in> set (data (getAll lc tasks st (Some x) pg lm))"
    with mem [of st "Some x"] have "matches_title lc (Some x) task"
      by (auto simp: filtered_set_def)
    with mt [OF h] show "sublist (lc x) (lc (title task))"
      by simp
  qed
  have c: "filteredTasks lc tasks st' ti' = filter (matches_title lc ti') (filter (matches_status st') tasks)"
    for st' ti'
    by (simp add: filteredTasks_filtered_set filtered_set_def)
  have b': "x \<noteq> [] \<or> lc [] = [] \<longrightarrow>
        filteredTasks lc tasks (Some s) (Some x)
          = filter (\<lambda>task. sublist (lc x) (lc (title task)))
              (filter (\<lambda>task. status task = s) tasks)"
  proof
    assume h: "x \<noteq> [] \<or> lc [] = []"
    have "matches_title lc (Some x) = (\<lambda>task. sublist (lc x) (lc (title task)))"
      by (rule ext) (rule mt [OF h])
    moreover have "matches_status (Some s) = (\<lambda>task. status task = s)"
      by (rule ext) (simp add: matches_status_def)
    ultimately show "filteredTasks lc tasks (Some s) (Some x)
          = filter (\<lambda>task. sublist (lc x) (lc (title task)))
              (filter (\<lambda>task. status task = s) tasks)"
      by (simp add: c)
  qed
  have d: "set (filtered_set lc tasks st ti)
             = {task \<in> set tasks. matches_status st task \<and> matches_title lc ti task}"
    by (auto simp: filtered_set_def)
  show ?thesis
    by (intro conjI getAll_total sub a b b' c d)
qed

theorem list_filter_correct_witness:
  "''REPORT'' \<noteq> []
   \<and> total (getAll ascii_lower [taskA, taskB] None (Some ''REPORT'') None None) = 1
   \<and> data (getAll ascii_lower [taskA, taskB] None (Some ''REPORT'') None None) = [taskB]
   \<and> list_all (\<lambda>task. sublist (ascii_lower ''REPORT'') (ascii_lower (title task)))
        (data (getAll ascii_lower [taskA, taskB] None (Some ''REPORT'') None None))
   \<and> data (getAll ascii_lower [taskA, taskB, taskC] (Some COMPLETED) None None None) = [taskC]
   \<and> list_all (\<lambda>task. status task = COMPLETED)
        (data (getAll ascii_lower [taskA, taskB, taskC] (Some COMPLETED) None None None))"
proof -
  have fs: "filtered_set ascii_lower [taskA, taskB] None (Some ''REPORT'') = [taskB]"
    by code_simp
  have fc: "filtered_set ascii_lower [taskA, taskB, taskC] (Some COMPLETED) None = [taskC]"
    by code_simp
  note inst = list_filter_correct [of ascii_lower "[taskA, taskB]" None "Some ''REPORT''" None None
      COMPLETED "''REPORT''"]
  note inst' = list_filter_correct [of ascii_lower "[taskA, taskB, taskC]" "Some COMPLETED" None None None
      COMPLETED "''x''"]
  have t: "total (getAll ascii_lower [taskA, taskB] None (Some ''REPORT'') None None) = 1"
    using inst by (simp add: fs)
  have d: "data (getAll ascii_lower [taskA, taskB] None (Some ''REPORT'') None None) = [taskB]"
    by (simp add: getAll_data fs slice_def)
  have d': "data (getAll ascii_lower [taskA, taskB, taskC] (Some COMPLETED) None None None) = [taskC]"
    by (simp add: getAll_data fc slice_def)
  have l: "list_all (\<lambda>task. sublist (ascii_lower ''REPORT'') (ascii_lower (title task)))
        (data (getAll ascii_lower [taskA, taskB] None (Some ''REPORT'') None None))"
    using inst by (simp only: list_all_iff) blast
  have l': "list_all (\<lambda>task. status task = COMPLETED)
        (data (getAll ascii_lower [taskA, taskB, taskC] (Some COMPLETED) None None None))"
    using inst' by (simp only: list_all_iff) blast
  have ne: "''REPORT'' \<noteq> []"
    by simp
  show ?thesis
    by (intro conjI ne t d l d' l')
qed

section \<open>getAll: the pagination policy\<close>

lemma slice_negative:
  assumes "s < 0" and "e < 0"
  shows "slice xs s e = drop (length xs - nat (- s)) (take (length xs - nat (- e)) xs)"
proof -
  have k: "nat (max (int (length xs) + s) 0) = length xs - nat (- s)"
    using assms(1) by linarith
  have f: "nat (max (int (length xs) + e) 0 - max (int (length xs) + s) 0)
             = (length xs - nat (- e)) - (length xs - nat (- s))"
    using assms by linarith
  show ?thesis
    using assms by (simp add: slice_def Let_def drop_take k f)
qed

lemma slice_to_zero: "slice xs s 0 = []"
  by (simp add: slice_def Let_def)

text \<open>
  C9, as the code has it. \<open>list\<close> returns \<open>filtered.slice(startIndex, endIndex)\<close> with
  \<open>startIndex = (page - 1) * limit\<close> and \<open>endIndex = page * limit\<close>, and raises no error.
  For a page of at least 1 and a limit of at least 0 this is the part of the filtered
  set at the positions from \<open>startIndex\<close> up to, not including, \<open>endIndex\<close>, as far as
  they exist; it is empty when \<open>startIndex\<close> is at or beyond the size of the filtered
  set. Absent arguments stand for page 1 and limit 10.
\<close>

theorem pagination_policy:
  assumes "1 \<le> p" and "0 \<le> l"
  shows "data (getAll lc tasks st ti (Some p) (Some l))
           = slice (filtered_set lc tasks st ti) ((p - 1) * l) (p * l)
         \<and> data (getAll lc tasks st ti (Some p) (Some l))
           = take (nat (p * l) - nat ((p - 1) * l))
               (drop (nat ((p - 1) * l)) (filtered_set lc tasks st ti))
         \<and> length (data (getAll lc tasks st ti (Some p) (Some l)))
           = min (nat l) (length (filtered_set lc tasks st ti) - nat ((p - 1) * l))
         \<and> (\<forall>j<length (data (getAll lc tasks st ti (Some p) (Some l))).
               data (getAll lc tasks st ti (Some p) (Some l)) ! j
                 = filtered_set lc tasks st ti ! (nat ((p - 1) * l) + j))
         \<and> (int (length (filtered_set lc tasks st ti)) \<le> (p - 1) * l \<longrightarrow>
               data (getAll lc tasks st ti (Some p) (Some l)) = [])
         \<and> total (getAll lc tasks st ti (Some p) (Some l)) = length (filtered_set lc tasks st ti)
         \<and> page (getAll lc tasks st ti (Some p) (Some l)) = p
         \<and> limit (getAll lc tasks st ti (Some p) (Some l)) = l
         \<and> data (getAll lc tasks st ti None None) = take 10 (filtered_set lc tasks st ti)"
proof -
  let ?F = "filtered_set lc tasks st ti"
  let ?d = "data (getAll lc tasks st ti (Some p) (Some l))"
  have a: "0 \<le> (p - 1) * l" and b: "0 \<le> p * l"
    using assms by simp_all
  have d1: "?d = slice ?F ((p - 1) * l) (p * l)"
    by (rule getAll_fields(4))
  have d2: "?d = take (nat (p * l) - nat ((p - 1) * l)) (drop (nat ((p - 1) * l)) ?F)"
    using slice_nonneg [OF a b] by (simp add: d1)
  have d3: "?d = take (nat l) (drop (nat ((p - 1) * l)) ?F)"
    using slice_page [OF assms] by (simp add: d1)
  have len: "length ?d = min (nat l) (length ?F - nat ((p - 1) * l))"
    by (simp add: d3)
  have nth: "\<forall>j<length ?d. ?d ! j = ?F ! (nat ((p - 1) * l) + j)"
  proof (intro allI impI)
    fix j assume j: "j < length ?d"
    then have "j < nat l" and "j < length ?F - nat ((p - 1) * l)"
      by (simp_all add: len)
    moreover from this have "nat ((p - 1) * l) \<le> length ?F"
      by linarith
    ultimately show "?d ! j = ?F ! (nat ((p - 1) * l) + j)"
      by (simp add: d3)
  qed
  have empty: "int (length ?F) \<le> (p - 1) * l \<longrightarrow> ?d = []"
    by (simp add: d3)
  have dflt: "data (getAll lc tasks st ti None None) = take 10 ?F"
    using slice_nonneg [of 0 10 ?F] by (simp add: getAll_data)
  show ?thesis
    by (intro conjI d1 d2 len nth empty getAll_fields dflt)
qed

theorem pagination_policy_witness:
  "(1::int) \<le> 2 \<and> (0::int) \<le> 2
   \<and> data (getAll ascii_lower [taskA, taskB, taskC] None None (Some 2) (Some 2)) = [taskC]
   \<and> data (getAll ascii_lower [taskA, taskB, taskC] None None (Some 3) (Some 2)) = []"
proof -
  have fs: "filtered_set ascii_lower [taskA, taskB, taskC] None None = [taskA, taskB, taskC]"
    by (simp add: filtered_set_def matches_status_def matches_title_def)
  from pagination_policy [of 2 2 ascii_lower "[taskA, taskB, taskC]" None None, THEN conjunct2, THEN conjunct1]
  have "data (getAll ascii_lower [taskA, taskB, taskC] None None (Some 2) (Some 2)) = [taskC]"
    by (simp add: fs)
  moreover
  from pagination_policy [of 3 2 ascii_lower "[taskA, taskB, taskC]" None None, THEN conjunct2, THEN conjunct1]
  have "data (getAll ascii_lower [taskA, taskB, taskC] None None (Some 3) (Some 2)) = []"
    by (simp add: fs)
  ultimately show ?thesis
    by simp
qed

text \<open>
  C9, as the claim words it (every out-of-range page gives an empty array), fails at
  page \<open>-1\<close> with limit 1 on a store of two tasks: the array holds the first task.
\<close>

theorem pagination_negative_page_counterexample:
  "data (getAll ascii_lower [taskA, taskB] None None (Some (- 1)) (Some 1)) = [taskA]
   \<and> data (getAll ascii_lower [taskA, taskB] None None (Some (- 1)) (Some 1)) \<noteq> []"
  by (simp add: getAll_fields filtered_set_def matches_status_def matches_title_def slice_def)

text \<open>
  C10. \<open>list\<close> neither rejects nor clamps nor defaults a page below 1: the page it
  reports is the page it was given. For a negative page and a positive limit the array
  is the part of the filtered set between two positions counted from its end, and there
  is a store for which it is not empty. Page 0 with a positive limit gives an empty
  array for every store.
\<close>

theorem nonpositive_page_edge_case:
  "page (getAll lc tasks st ti (Some p) (Some l)) = p
   \<and> (p < 0 \<and> 0 < l \<longrightarrow>
        data (getAll lc tasks st ti (Some p) (Some l))
          = drop (length (filtered_set lc tasks st ti) - nat ((1 - p) * l))
              (take (length (filtered_set lc tasks st ti) - nat (- p * l))
                 (filtered_set lc tasks st ti)))
   \<and> (\<exists>tasks' p' l'. p' < 1 \<and> 0 < l'
        \<and> data (getAll lc tasks' None None (Some p') (Some l')) \<noteq> []
        \<and> data (getAll lc tasks' None None (Some p') (Some l'))
            = [last (butlast (filtered_set lc tasks' None None))])
   \<and> (0 < l \<longrightarrow> data (getAll lc tasks st ti (Some 0) (Some l)) = [])"
proof -
  have neg: "p < 0 \<and> 0 < l \<longrightarrow>
        data (getAll lc tasks st ti (Some p) (Some l))
          = drop (length (filtered_set lc tasks st ti) - nat ((1 - p) * l))
              (take (length (filtered_set lc tasks st ti) - nat (- p * l))
                 (filtered_set lc tasks st ti))"
  proof
    assume h: "p < 0 \<and> 0 < l"
    then have s: "(p - 1) * l < 0" and e: "p * l < 0"
      by (simp_all add: mult_neg_pos)
    have "- ((p - 1) * l) = (1 - p) * l"
      by (simp add: algebra_simps)
    with slice_negative [OF s e, of "filtered_set lc tasks st ti"] show
      "data (getAll lc tasks st ti (Some p) (Some l))
          = drop (length (filtered_set lc tasks st ti) - nat ((1 - p) * l))
              (take (length (filtered_set lc tasks st ti) - nat (- p * l))
                 (filtered_set lc tasks st ti))"
      by (simp add: getAll_fields(4))
  qed
  have fs: "filtered_set lc [taskA, taskB, taskC] None None = [taskA, taskB, taskC]"
    by (simp add: filtered_set_def matches_status_def matches_title_def)
  have "(- 1 :: int) < 1 \<and> (0::int) < 1
        \<and> data (getAll lc [taskA, taskB, taskC] None None (Some (- 1)) (Some 1)) \<noteq> []
        \<and> data (getAll lc [taskA, taskB, taskC] None None (Some (- 1)) (Some 1))
            = [last (butlast (filtered_set lc [taskA, taskB, taskC] None None))]"
    by (simp add: getAll_fields(4) fs slice_def)
  then have ex: "\<exists>tasks' p' l'. p' < 1 \<and> 0 < l'
        \<and> data (getAll lc tasks' None None (Some p') (Some l')) \<noteq> []
        \<and> data (getAll lc tasks' None None (Some p') (Some l'))
            = [last (butlast (filtered_set lc tasks' None None))]"
    by blast
  have zero: "0 < l \<longrightarrow> data (getAll lc tasks st ti (Some 0) (Some l)) = []"
    by (simp add: getAll_fields(4) slice_to_zero)
  show ?thesis
    by (intro conjI getAll_fields(2) neg ex zero)
qed

theorem nonpositive_page_edge_case_witness:
  "(- 1 :: int) < 0 \<and> (0::int) < 1
   \<and> page (getAll ascii_lower [taskA, taskB, taskC] None None (Some (- 1)) (Some 1)) = - 1
   \<and> data (getAll ascii_lower [taskA, taskB, taskC] None None (Some (- 1)) (Some 1)) = [taskB]
   \<and> data (getAll ascii_lower [taskA, taskB, taskC] None None (Some 0) (Some 1)) = []"
proof -
  have fs: "filtered_set ascii_lower [taskA, taskB, taskC] None None = [taskA, taskB, taskC]"
    by (simp add: filtered_set_def matches_status_def matches_title_def)
  from nonpositive_page_edge_case [of ascii_lower "[taskA, taskB, taskC]" None None "- 1" 1]
  show ?thesis
    by (simp add: fs)
qed

end
